theory Spec2Isabelle
  imports Complex_Main
begin

section \<open>The DICOM-to-PNG converter (scripts/dcm_to_png.py)\<close>

text \<open>
  The script walks an input root, reads every file whose name ends in \<^verbatim>\<open>.dcm\<close>
  (case-insensitively), rescales its pixel array to 8 bits with a window taken from the
  1st and 99th percentile, and saves the result under the output root. The model below
  follows the script line by line. The library calls it makes (numpy, os, os.path) are
  modelled after their documented behaviour and, for os and os.path, after the
  standard library's own code.

  The conversion of the decoded integers to 32-bit floats is modelled with its rounding.
  The arithmetic of the normalizer is modelled in exact rationals: the rounding of each
  floating-point operation, and the precision numpy picks for it, are not. What is proved
  of the normalizer below holds with and without that rounding: the shape of the image,
  the image of a constant grid, the ordering of the window and of the normalized values.
  The exact value of a normalized sample does depend on the rounding (a sample equal to
  the upper bound maps to 254 in exact arithmetic, and to 255 once \<open>\<epsilon>\<close> is absorbed in
  the divisor), and nothing is proved about it.
\<close>

subsection \<open>Exceptions\<close>

datatype error =
  IndexError          \<comment> \<open>\<^verbatim>\<open>np.percentile\<close> of an array with no sample\<close>
  | InvalidDicomError \<comment> \<open>\<^verbatim>\<open>pydicom.dcmread\<close> or \<^verbatim>\<open>ds.pixel_array\<close> raises\<close>
  | SaveError         \<comment> \<open>\<^verbatim>\<open>Image.fromarray(img).save(out_path)\<close> raises\<close>
  | OSError           \<comment> \<open>\<^verbatim>\<open>os.makedirs(dst, exist_ok=True)\<close> raises\<close>

subsection \<open>Arrays\<close>

text \<open>
  A numpy array is a shape and a flat, row-major buffer. Elementwise operations map over
  the buffer and leave the shape alone; \<^verbatim>\<open>np.percentile\<close> without an axis reads the
  flattened array, which is the buffer.
\<close>

record 'a ndarray =
  shape :: "nat list"
  data :: "'a list"

definition ndim :: "'a ndarray \<Rightarrow> nat" where
  "ndim a = length (shape a)"

definition map_ndarray :: "('a \<Rightarrow> 'b) \<Rightarrow> 'a ndarray \<Rightarrow> 'b ndarray" where
  "map_ndarray f a = \<lparr>shape = shape a, data = map f (data a)\<rparr>"

text \<open>
  \<^verbatim>\<open>astype(np.float32)\<close> of an integer: a 32-bit float has a significand of 24 bits,
  so an integer of more bits is rounded to the nearest multiple of the power of two that
  leaves 24 of them, a tie going to the even multiple. The decoded samples are machine
  integers of at most 64 bits, far below the largest 32-bit float.
\<close>

function bit_length :: "int \<Rightarrow> nat" where
  "bit_length m = (if m \<le> 0 then 0 else Suc (bit_length (m div 2)))"
  by pat_completeness auto
termination
  by (relation "measure nat") auto

declare bit_length.simps [simp del]

definition float32_of_int :: "int \<Rightarrow> rat" where
  "float32_of_int n =
     (let m = \<bar>n\<bar>
      in if m \<le> 2 ^ 24 then of_int n
         else
           let e = bit_length m - 24;
               q = m div 2 ^ e;
               r = m mod 2 ^ e;
               half = 2 ^ (e - 1);
               q' = (if r > half \<or> (r = half \<and> odd q) then q + 1 else q)
           in of_int (sgn n * (q' * 2 ^ e)))"

definition astype_float32 :: "int ndarray \<Rightarrow> rat ndarray" where
  "astype_float32 a = map_ndarray float32_of_int a"

text \<open>
  \<^verbatim>\<open>astype(np.uint8)\<close> drops the fraction (towards zero) and keeps the low 8 bits.
\<close>

definition trunc :: "rat \<Rightarrow> int" where
  "trunc x = (if x < 0 then \<lceil>x\<rceil> else \<lfloor>x\<rfloor>)"

definition astype_uint8 :: "rat \<Rightarrow> nat" where
  "astype_uint8 x = nat (trunc x mod 256)"

definition clip :: "rat \<Rightarrow> rat \<Rightarrow> rat \<Rightarrow> rat" where
  "clip x a_min a_max = min a_max (max x a_min)"

subsection \<open>\<^verbatim>\<open>np.percentile\<close>, default method (linear)\<close>

text \<open>
  Python indexing: a negative index counts from the end.
\<close>

definition item :: "'a list \<Rightarrow> int \<Rightarrow> 'a" where
  "item arr i = arr ! (if i < 0 then nat (int (length arr) + i) else nat i)"

definition lerp :: "rat \<Rightarrow> rat \<Rightarrow> rat \<Rightarrow> rat" where
  "lerp a b t =
     (let diff_b_a = b - a
      in if t \<ge> 1 / 2 then b - diff_b_a * (1 - t) else a + diff_b_a * t)"

definition get_indexes :: "nat \<Rightarrow> rat \<Rightarrow> int \<times> int" where
  "get_indexes values_count virtual_index =
     (let previous_index = \<lfloor>virtual_index\<rfloor>; next_index = previous_index + 1
      in if virtual_index \<ge> of_nat values_count - 1 then (- 1, - 1)
         else if virtual_index < 0 then (0, 0)
         else (previous_index, next_index))"

definition quantile :: "rat list \<Rightarrow> rat \<Rightarrow> error + rat" where
  "quantile xs qt =
     (if xs = [] then Inl IndexError
      else
        let arr = sort xs;
            values_count = length arr;
            virtual_index = (of_nat values_count - 1) * qt;
            (previous_index, next_index) = get_indexes values_count virtual_index;
            gamma = virtual_index - of_int previous_index
        in Inr (lerp (item arr previous_index) (item arr next_index) gamma))"

definition percentile :: "rat list \<Rightarrow> rat \<Rightarrow> error + rat" where
  "percentile xs q = quantile xs (q / 100)"

subsection \<open>The normalizer (lines 27 to 29)\<close>

definition eps :: rat where
  "eps = 1 / 1000000"

definition pixel :: "rat \<Rightarrow> rat \<Rightarrow> rat \<Rightarrow> nat" where
  "pixel lo hi s = astype_uint8 (clip ((s - lo) / (hi - lo + eps)) 0 1 * 255)"

definition normalize :: "rat ndarray \<Rightarrow> error + nat ndarray" where
  "normalize px =
     (case percentile (data px) 1 of
        Inl e \<Rightarrow> Inl e
      | Inr lo \<Rightarrow>
          (case percentile (data px) 99 of
             Inl e \<Rightarrow> Inl e
           | Inr hi \<Rightarrow>
               let px' = map_ndarray (\<lambda>s. clip ((s - lo) / (hi - lo + eps)) 0 1) px;
                   img = map_ndarray (\<lambda>v. astype_uint8 (v * 255)) px'
               in Inr img))"

subsection \<open>Strings and paths\<close>

text \<open>
  Strings are byte lists. \<^verbatim>\<open>str.lower\<close> is modelled on ASCII letters; the bytes of a
  character outside ASCII are left as they are, and none of them is a byte of
  \<^verbatim>\<open>.dcm\<close>.
\<close>

definition lower_char :: "char \<Rightarrow> char" where
  "lower_char c =
     (let n = (of_char c :: nat) in if 65 \<le> n \<and> n \<le> 90 then char_of (n + 32) else c)"

definition lower :: "string \<Rightarrow> string" where
  "lower s = map lower_char s"

definition endswith :: "string \<Rightarrow> string \<Rightarrow> bool" where
  "endswith s suffix =
     (length suffix \<le> length s \<and> drop (length s - length suffix) s = suffix)"

definition startswith :: "string \<Rightarrow> string \<Rightarrow> bool" where
  "startswith s prefix = (take (length prefix) s = prefix)"

primrec rfind_from :: "char \<Rightarrow> string \<Rightarrow> int \<Rightarrow> int \<Rightarrow> int" where
  "rfind_from c [] i found = found"
| "rfind_from c (x # xs) i found = rfind_from c xs (i + 1) (if x = c then i else found)"

definition rfind :: "string \<Rightarrow> char \<Rightarrow> int" where
  "rfind p c = rfind_from c p 0 (- 1)"

text \<open>
  The loop of \<^verbatim>\<open>genericpath._splitext\<close> that skips leading dots: \<open>Some\<close> is its
  early return, \<open>None\<close> is falling out of the loop.
\<close>

function skip_leading_dots :: "string \<Rightarrow> nat \<Rightarrow> nat \<Rightarrow> (string \<times> string) option" where
  "skip_leading_dots p filenameIndex dotIndex =
     (if filenameIndex < dotIndex then
        (if p ! filenameIndex \<noteq> CHR ''.'' then Some (take dotIndex p, drop dotIndex p)
         else skip_leading_dots p (filenameIndex + 1) dotIndex)
      else None)"
  by pat_completeness auto
termination
  by (relation "measure (\<lambda>(p, filenameIndex, dotIndex). dotIndex - filenameIndex)") auto

declare skip_leading_dots.simps [simp del]

definition splitext :: "string \<Rightarrow> string \<times> string" where
  "splitext p =
     (let sepIndex = rfind p CHR ''/''; dotIndex = rfind p CHR ''.''
      in if dotIndex > sepIndex then
           (case skip_leading_dots p (nat (sepIndex + 1)) (nat dotIndex) of
              Some r \<Rightarrow> r
            | None \<Rightarrow> (p, []))
         else (p, []))"

definition join :: "string \<Rightarrow> string \<Rightarrow> string" where
  "join a b =
     (if startswith b ''/'' then b
      else if a = [] \<or> endswith a ''/'' then a @ b
      else a @ ''/'' @ b)"

text \<open>
  The decimal digits of a count, as the f-string prints them.
\<close>

definition digit_char :: "nat \<Rightarrow> char" where
  "digit_char d = ''0123456789'' ! d"

fun str :: "nat \<Rightarrow> string" where
  "str n = (if n < 10 then [digit_char n] else str (n div 10) @ [digit_char (n mod 10)])"

declare str.simps [simp del]

subsection \<open>The input tree and \<^verbatim>\<open>os.walk\<close>\<close>

text \<open>
  A source file either decodes to an integer pixel array of some shape, or it does not.
  A directory lists its entries in the order \<^verbatim>\<open>scandir\<close> gives them; \<open>Locked\<close> is a
  directory that cannot be listed. \<open>walk\<close> is \<^verbatim>\<open>os.walk\<close> top-down with
  \<^verbatim>\<open>onerror=None\<close>: a directory that cannot be listed yields nothing. Each file name
  is paired with the file behind it, which the loop body reads via \<^verbatim>\<open>in_path\<close>.
\<close>

datatype source_file = Dicom "int ndarray" | Corrupt

datatype node = File source_file | Dir "(string \<times> node) list" | Locked

fun is_dir :: "node \<Rightarrow> bool" where
  "is_dir (File f) = False"
| "is_dir (Dir entries) = True"
| "is_dir Locked = True"

fun walk :: "string \<Rightarrow> node \<Rightarrow> (string \<times> string list \<times> (string \<times> source_file) list) list" where
  "walk topdir (Dir entries) =
     (topdir, [name. (name, n) \<leftarrow> entries, is_dir n], [(name, f). (name, File f) \<leftarrow> entries])
     # concat (map (\<lambda>(name, n). if is_dir n then walk (join topdir name) n else []) entries)"
| "walk topdir (File f) = []"
| "walk topdir Locked = []"

text \<open>
  The path given on the command line may name nothing at all.
\<close>

fun os_walk :: "string \<Rightarrow> node option \<Rightarrow> (string \<times> string list \<times> (string \<times> source_file) list) list" where
  "os_walk topdir None = []"
| "os_walk topdir (Some n) = walk topdir n"

subsection \<open>The batch (lines 11 to 34)\<close>

text \<open>
  What a run can observe and change: the image files under the paths it writes, the log
  of completed \<^verbatim>\<open>save\<close> calls (oldest first), the counter and standard output.
\<close>

record state =
  files :: "string \<rightharpoonup> nat ndarray"
  writes :: "(string \<times> nat ndarray) list"
  count :: nat
  stdout :: "string list"

text \<open>
  What a run is given: the two arguments, the node the first one names (if any), whether
  the output root can be created, which \<^verbatim>\<open>save\<close> calls succeed, and the image files
  that exist before the run.
\<close>

record env =
  src :: string
  dst :: string
  src_node :: "node option"
  makedirs_ok :: bool
  save_ok :: "string \<Rightarrow> nat ndarray \<Rightarrow> bool"
  existing :: "string \<rightharpoonup> nat ndarray"

definition init :: "env \<Rightarrow> state" where
  "init e = \<lparr>files = existing e, writes = [], count = 0, stdout = []\<rparr>"

definition dcmread :: "source_file \<Rightarrow> error + int ndarray" where
  "dcmread f = (case f of Dicom a \<Rightarrow> Inr a | Corrupt \<Rightarrow> Inl InvalidDicomError)"

definition is_dcm :: "string \<Rightarrow> bool" where
  "is_dcm fn = endswith (lower fn) ''.dcm''"

definition out_name :: "string \<Rightarrow> string" where
  "out_name fn = fst (splitext fn) @ ''.png''"

text \<open>
  One pass through the body of the inner loop. An exception leaves the loops at once: the
  result is then \<open>Inl\<close> of the exception and the state at that moment.
\<close>

definition convert_file :: "env \<Rightarrow> string \<Rightarrow> string \<times> source_file \<Rightarrow> state \<Rightarrow> error \<times> state + state" where
  "convert_file e dirpath entry st =
     (let (fn, f) = entry
      in if \<not> is_dcm fn then Inr st
         else
           let in_path = join dirpath fn;
               out_path = join (dst e) (out_name fn)
           in case dcmread f of
                Inl err \<Rightarrow> Inl (err, st)
              | Inr pixel_array \<Rightarrow>
                  (case normalize (astype_float32 pixel_array) of
                     Inl err \<Rightarrow> Inl (err, st)
                   | Inr img \<Rightarrow>
                       if save_ok e out_path img then
                         Inr (st\<lparr>files := (files st)(out_path \<mapsto> img),
                                 writes := writes st @ [(out_path, img)],
                                 count := count st + 1\<rparr>)
                       else Inl (SaveError, st)))"

fun inner_loop :: "env \<Rightarrow> string \<Rightarrow> (string \<times> source_file) list \<Rightarrow> state \<Rightarrow> error \<times> state + state" where
  "inner_loop e dirpath [] st = Inr st"
| "inner_loop e dirpath (entry # rest) st =
     (case convert_file e dirpath entry st of
        Inl raised \<Rightarrow> Inl raised
      | Inr st' \<Rightarrow> inner_loop e dirpath rest st')"

fun outer_loop :: "env \<Rightarrow> (string \<times> string list \<times> (string \<times> source_file) list) list \<Rightarrow> state \<Rightarrow> error \<times> state + state" where
  "outer_loop e [] st = Inr st"
| "outer_loop e ((dirpath, dirs, fs) # rest) st =
     (case inner_loop e dirpath fs st of
        Inl raised \<Rightarrow> Inl raised
      | Inr st' \<Rightarrow> outer_loop e rest st')"

definition summary :: "nat \<Rightarrow> string \<Rightarrow> string" where
  "summary n d = ''Converted '' @ str n @ '' DICOMs to PNG in: '' @ d"

definition main :: "env \<Rightarrow> error \<times> state + state" where
  "main e =
     (if \<not> makedirs_ok e then Inl (OSError, init e)
      else
        case outer_loop e (os_walk (src e) (src_node e)) (init e) of
          Inl raised \<Rightarrow> Inl raised
        | Inr st \<Rightarrow> Inr (st\<lparr>stdout := stdout st @ [summary (count st) (dst e)]\<rparr>))"

subsection \<open>Notions used in the proofs\<close>

text \<open>
  The piecewise linear curve through an ordered sample list, read at a position: what
  \<open>quantile\<close> computes once its index cases are resolved.
\<close>

definition clamped_at :: "rat list \<Rightarrow> nat \<Rightarrow> rat" where
  "clamped_at arr i = arr ! min i (length arr - 1)"

definition interp :: "rat list \<Rightarrow> rat \<Rightarrow> rat" where
  "interp arr v =
     clamped_at arr (nat \<lfloor>v\<rfloor>)
       + (clamped_at arr (Suc (nat \<lfloor>v\<rfloor>)) - clamped_at arr (nat \<lfloor>v\<rfloor>)) * (v - of_int \<lfloor>v\<rfloor>)"

text \<open>
  The iterations of the two loops in order, each file name with its directory; the two
  loops as one loop over them; the state a run has reached, whether it ended or raised.
\<close>

definition entries :: "(string \<times> string list \<times> (string \<times> source_file) list) list \<Rightarrow> (string \<times> string \<times> source_file) list" where
  "entries ws = concat (map (\<lambda>(dirpath, dirs, fs). map (Pair dirpath) fs) ws)"

fun run :: "env \<Rightarrow> (string \<times> string \<times> source_file) list \<Rightarrow> state \<Rightarrow> error \<times> state + state" where
  "run e [] st = Inr st"
| "run e ((dirpath, entry) # rest) st =
     (case convert_file e dirpath entry st of
        Inl raised \<Rightarrow> Inl raised
      | Inr st' \<Rightarrow> run e rest st')"

definition state_of :: "error \<times> state + state \<Rightarrow> state" where
  "state_of r = (case r of Inl (err, st) \<Rightarrow> st | Inr st \<Rightarrow> st)"

definition out_path :: "env \<Rightarrow> string \<Rightarrow> string" where
  "out_path e fn = join (dst e) (out_name fn)"

definition converted :: "source_file \<Rightarrow> error + nat ndarray" where
  "converted f = (case dcmread f of Inl err \<Rightarrow> Inl err | Inr a \<Rightarrow> normalize (astype_float32 a))"

text \<open>
  The state after the first \<open>k\<close> passes through the loop body, or the state at the
  exception if one of them raised.
\<close>

definition after :: "env \<Rightarrow> nat \<Rightarrow> state" where
  "after e k = state_of (run e (take k (entries (os_walk (src e) (src_node e)))) (init e))"

subsection \<open>The summary line as the specification words it\<close>

definition spec_summary :: "nat \<Rightarrow> string \<Rightarrow> string" where
  "spec_summary n output_root = ''Converted '' @ str n @ '' files to: '' @ output_root"

subsection \<open>Example inputs\<close>

definition multiframe :: "int ndarray" where
  "multiframe = \<lparr>shape = [2, 2, 2], data = [0, 10, 20, 30, 40, 50, 60, 70]\<rparr>"

definition ramp :: "int ndarray" where
  "ramp = \<lparr>shape = [2, 2], data = [0, 10, 20, 30]\<rparr>"

definition flat :: "int ndarray" where
  "flat = \<lparr>shape = [2, 2], data = [7, 7, 7, 7]\<rparr>"

text \<open>
  An encoder and a disk that take every image.
\<close>

definition accept_all :: "string \<Rightarrow> nat ndarray \<Rightarrow> bool" where
  "accept_all p img = True"

text \<open>
  Two files named \<^verbatim>\<open>a.dcm\<close>, one in the input root and one in a subdirectory, and a
  file that is not a DICOM file by its name.
\<close>

definition same_name_twice :: env where
  "same_name_twice =
     \<lparr>src = ''in'', dst = ''out'',
      src_node = Some (Dir [(''a.dcm'', File (Dicom ramp)),
                            (''notes.txt'', File Corrupt),
                            (''sub'', Dir [(''a.dcm'', File (Dicom flat))])]),
      makedirs_ok = True, save_ok = accept_all, existing = Map.empty\<rparr>"

text \<open>
  Three files, the second of which does not decode.
\<close>

definition one_corrupt :: env where
  "one_corrupt =
     \<lparr>src = ''in'', dst = ''out'',
      src_node = Some (Dir [(''a.dcm'', File (Dicom ramp)),
                            (''b.dcm'', File Corrupt),
                            (''c.dcm'', File (Dicom flat))]),
      makedirs_ok = True, save_ok = accept_all, existing = Map.empty\<rparr>"

text \<open>
  An input root that does not exist.
\<close>

definition missing_root :: env where
  "missing_root =
     \<lparr>src = ''nowhere'', dst = ''out'', src_node = None,
      makedirs_ok = True, save_ok = accept_all, existing = Map.empty\<rparr>"

text \<open>
  One file that decodes to two frames of 2 by 2 samples.
\<close>

definition multiframe_run :: env where
  "multiframe_run =
     \<lparr>src = ''in'', dst = ''out'',
      src_node = Some (Dir [(''m.dcm'', File (Dicom multiframe))]),
      makedirs_ok = True, save_ok = accept_all, existing = Map.empty\<rparr>"

section \<open>Properties of the normalizer\<close>

lemma float32_of_int_exact: "\<bar>n\<bar> \<le> 2 ^ 24 \<Longrightarrow> float32_of_int n = of_int n"
  unfolding float32_of_int_def Let_def by (simp only: if_True)

lemma float32_of_int_rounds:
  "float32_of_int 16777217 = 16777216 \<and> float32_of_int 16777219 = 16777220
   \<and> float32_of_int (- 16777219) = - 16777220 \<and> float32_of_int 33554431 = 33554432
   \<and> float32_of_int 2147909120 = 2147909120"
  by code_simp

lemma astype_float32_merges_neighbours:
  "normalize (astype_float32 \<lparr>shape = [1, 2], data = [16777216, 16777217]\<rparr>)
     = Inr \<lparr>shape = [1, 2], data = [0, 0]\<rparr>"
  by code_simp

lemma normalize_shape:
  "normalize px = Inr img \<Longrightarrow> shape img = shape px \<and> length (data img) = length (data px)"
  by (auto simp: normalize_def map_ndarray_def Let_def split: sum.splits)

lemma percentile_nonempty:
  "xs \<noteq> [] \<Longrightarrow> \<exists>v. percentile xs q = Inr v"
  by (simp add: percentile_def quantile_def Let_def split: prod.splits)

lemma normalize_nonempty:
  "data px \<noteq> [] \<Longrightarrow> \<exists>img. normalize px = Inr img"
proof -
  assume ne: "data px \<noteq> []"
  obtain lo where lo: "percentile (data px) 1 = Inr lo"
    using percentile_nonempty [OF ne] by blast
  obtain hi where hi: "percentile (data px) 99 = Inr hi"
    using percentile_nonempty [OF ne] by blast
  show ?thesis by (simp add: normalize_def lo hi Let_def)
qed

text \<open>
  C2. Whenever the normalizer returns an image, the image has the shape of the source grid
  (for a 2-D grid: the same number of rows and of columns) and as many samples; and it
  returns an image for every source grid that holds at least one sample.
\<close>

theorem normalize_keeps_dimensions:
  "(\<forall>img. normalize px = Inr img \<longrightarrow>
      shape img = shape px \<and> length (data img) = length (data px))
   \<and> (data px \<noteq> [] \<longrightarrow> (\<exists>img. normalize px = Inr img))"
  using normalize_nonempty [of px] normalize_shape [of px] by blast

theorem normalize_keeps_dimensions_witness:
  "data \<lparr>shape = [2, 3], data = [5, 1, 4, 2, 8, 3 :: rat]\<rparr> \<noteq> [] \<and>
   (\<exists>img. normalize \<lparr>shape = [2, 3], data = [5, 1, 4, 2, 8, 3]\<rparr> = Inr img \<and> shape img = [2, 3] \<and>
      length (data img) = 6)"
  using normalize_keeps_dimensions [of "\<lparr>shape = [2, 3], data = [5, 1, 4, 2, 8, 3]\<rparr>"]
  by (auto simp: eval_nat_numeral)

lemma lerp_eq: "lerp a b t = a + (b - a) * t"
  by (simp add: lerp_def Let_def algebra_simps)

lemma quantile_interp:
  assumes ne: "xs \<noteq> []" and q0: "0 \<le> qt"
  shows "quantile xs qt = Inr (interp (sort xs) ((of_nat (length xs) - 1) * qt))"
proof -
  define arr where "arr = sort xs"
  define n where "n = length xs"
  define v where "v = (of_nat n - 1) * qt"
  have n1: "1 \<le> n" using ne by (cases xs) (simp_all add: n_def)
  have len: "length arr = n" by (simp add: arr_def n_def)
  have v0: "0 \<le> v" using q0 n1 by (simp add: v_def)
  have fl0: "0 \<le> \<lfloor>v\<rfloor>" using v0 by simp
  show ?thesis
  proof (cases "v \<ge> of_nat n - 1")
    case True
    have "of_int (int n - 1) \<le> v" using True by simp
    then have "int n - 1 \<le> \<lfloor>v\<rfloor>" by (simp only: le_floor_iff)
    then have k: "n - 1 \<le> nat \<lfloor>v\<rfloor>" by linarith
    have a1: "clamped_at arr (nat \<lfloor>v\<rfloor>) = arr ! (n - 1)"
      using k by (simp add: clamped_at_def len min_def)
    have a2: "clamped_at arr (Suc (nat \<lfloor>v\<rfloor>)) = arr ! (n - 1)"
      using k by (simp add: clamped_at_def len min_def)
    have it: "item arr (- 1) = arr ! (n - 1)"
      using n1 by (simp add: item_def len nat_diff_distrib)
    have "quantile xs qt = Inr (arr ! (n - 1))"
      using ne True it
      by (simp add: quantile_def Let_def get_indexes_def lerp_eq arr_def [symmetric]
          n_def [symmetric] v_def [symmetric] len)
    then show ?thesis
      by (simp add: interp_def a1 a2 arr_def [symmetric] n_def [symmetric] v_def [symmetric])
  next
    case False
    then have vlt: "v < of_int (int n - 1)" by simp
    then have "\<lfloor>v\<rfloor> < int n - 1" by (simp only: floor_less_iff)
    then have k: "Suc (nat \<lfloor>v\<rfloor>) \<le> n - 1" using fl0 by linarith
    have a1: "clamped_at arr (nat \<lfloor>v\<rfloor>) = arr ! nat \<lfloor>v\<rfloor>"
      using k by (simp add: clamped_at_def len min_def)
    have a2: "clamped_at arr (Suc (nat \<lfloor>v\<rfloor>)) = arr ! nat (\<lfloor>v\<rfloor> + 1)"
      using k fl0 by (simp add: clamped_at_def len min_def nat_add_distrib)
    have i1: "item arr \<lfloor>v\<rfloor> = arr ! nat \<lfloor>v\<rfloor>"
      using fl0 by (simp add: item_def)
    have "\<not> \<lfloor>v\<rfloor> + 1 < 0" using fl0 by linarith
    then have i2: "item arr (\<lfloor>v\<rfloor> + 1) = arr ! nat (\<lfloor>v\<rfloor> + 1)"
      by (simp add: item_def)
    have "quantile xs qt = Inr (lerp (arr ! nat \<lfloor>v\<rfloor>) (arr ! nat (\<lfloor>v\<rfloor> + 1)) (v - of_int \<lfloor>v\<rfloor>))"
      using ne False v0 i1 i2
      by (simp add: quantile_def Let_def get_indexes_def arr_def [symmetric]
          n_def [symmetric] v_def [symmetric] len)
    then show ?thesis
      by (simp add: interp_def a1 a2 lerp_eq arr_def [symmetric] n_def [symmetric] v_def [symmetric])
  qed
qed

lemma clamped_at_mono:
  assumes "sorted arr" and "arr \<noteq> []" and "i \<le> j"
  shows "clamped_at arr i \<le> clamped_at arr j"
proof -
  have "min i (length arr - 1) \<le> min j (length arr - 1)" using assms(3) by simp
  moreover have "min j (length arr - 1) < length arr" using assms(2) by (cases arr) simp_all
  ultimately show ?thesis
    unfolding clamped_at_def using assms(1) by (simp only: sorted_nth_mono)
qed

lemma interp_bounds:
  assumes "sorted arr" and "arr \<noteq> []"
  shows "clamped_at arr (nat \<lfloor>v\<rfloor>) \<le> interp arr v" and "interp arr v \<le> clamped_at arr (Suc (nat \<lfloor>v\<rfloor>))"
proof -
  define a where "a = clamped_at arr (nat \<lfloor>v\<rfloor>)"
  define b where "b = clamped_at arr (Suc (nat \<lfloor>v\<rfloor>))"
  define g where "g = v - of_int \<lfloor>v\<rfloor>"
  have ab: "a \<le> b" unfolding a_def b_def using clamped_at_mono [OF assms] by simp
  have g0: "0 \<le> g" and g1: "g \<le> 1" unfolding g_def by linarith+
  have eq: "interp arr v = a + (b - a) * g" by (simp add: interp_def a_def b_def g_def)
  have "0 \<le> (b - a) * g" using ab g0 by simp
  then show "clamped_at arr (nat \<lfloor>v\<rfloor>) \<le> interp arr v" using eq a_def by simp
  have "(b - a) * g \<le> (b - a) * 1" using ab g1 by (intro mult_left_mono) simp_all
  then show "interp arr v \<le> clamped_at arr (Suc (nat \<lfloor>v\<rfloor>))" using eq b_def by simp
qed

lemma interp_mono:
  assumes s: "sorted arr" and ne: "arr \<noteq> []" and v0: "0 \<le> v" and vw: "v \<le> w"
  shows "interp arr v \<le> interp arr w"
proof (cases "\<lfloor>v\<rfloor> = \<lfloor>w\<rfloor>")
  case True
  define a where "a = clamped_at arr (nat \<lfloor>w\<rfloor>)"
  define b where "b = clamped_at arr (Suc (nat \<lfloor>w\<rfloor>))"
  have ab: "a \<le> b" unfolding a_def b_def using clamped_at_mono [OF s ne] by simp
  have "(b - a) * (v - of_int \<lfloor>w\<rfloor>) \<le> (b - a) * (w - of_int \<lfloor>w\<rfloor>)"
    using ab vw by (intro mult_left_mono) simp_all
  then show ?thesis by (simp add: interp_def True a_def b_def)
next
  case False
  moreover have "\<lfloor>v\<rfloor> \<le> \<lfloor>w\<rfloor>" using vw by (rule floor_mono)
  moreover have "0 \<le> \<lfloor>v\<rfloor>" using v0 by simp
  ultimately have "Suc (nat \<lfloor>v\<rfloor>) \<le> nat \<lfloor>w\<rfloor>" by linarith
  then have "clamped_at arr (Suc (nat \<lfloor>v\<rfloor>)) \<le> clamped_at arr (nat \<lfloor>w\<rfloor>)"
    by (rule clamped_at_mono [OF s ne])
  with interp_bounds(2) [OF s ne, of v] interp_bounds(1) [OF s ne, of w]
  show ?thesis by linarith
qed

lemma window_ordered:
  assumes lo: "percentile xs 1 = Inr lo" and hi: "percentile xs 99 = Inr hi"
  shows "lo \<le> hi"
proof -
  have ne: "xs \<noteq> []" using lo by (auto simp: percentile_def quantile_def)
  have n1: "(1::rat) \<le> of_nat (length xs)" using ne by (cases xs) simp_all
  have sne: "sort xs \<noteq> []" using ne by (metis length_0_conv length_sort)
  have "lo = interp (sort xs) ((of_nat (length xs) - 1) * (1 / 100))"
    using lo quantile_interp [OF ne, of "1 / 100"] by (simp add: percentile_def)
  moreover have "hi = interp (sort xs) ((of_nat (length xs) - 1) * (99 / 100))"
    using hi quantile_interp [OF ne, of "99 / 100"] by (simp add: percentile_def)
  moreover have "interp (sort xs) ((of_nat (length xs) - 1) * (1 / 100))
      \<le> interp (sort xs) ((of_nat (length xs) - 1) * (99 / 100))"
    using n1 sne by (intro interp_mono) simp_all
  ultimately show ?thesis by simp
qed

lemma astype_uint8_unit:
  assumes "0 \<le> v" and "v \<le> 1"
  shows "astype_uint8 (v * 255) = nat \<lfloor>v * 255\<rfloor>"
proof -
  have a: "0 \<le> v * 255" using assms(1) by simp
  have b: "v * 255 \<le> 255" using assms(2) by simp
  have "0 \<le> \<lfloor>v * 255\<rfloor>" using a by simp
  moreover have "\<lfloor>v * 255\<rfloor> \<le> 255" using b by (simp add: floor_le_iff)
  ultimately show ?thesis using a by (simp add: astype_uint8_def trunc_def)
qed

lemma clip_unit: "0 \<le> clip x 0 1 \<and> clip x 0 1 \<le> 1"
  by (simp add: clip_def)

lemma clip_mono: "x \<le> y \<Longrightarrow> clip x 0 1 \<le> clip y 0 1"
  by (simp add: clip_def min_def max_def)

lemma pixel_le_255: "pixel lo hi s \<le> 255"
proof -
  define v where "v = clip ((s - lo) / (hi - lo + eps)) 0 1"
  have v: "0 \<le> v" "v \<le> 1" using clip_unit [of "(s - lo) / (hi - lo + eps)"] by (simp_all add: v_def)
  have "v * 255 \<le> 255" using v(2) by simp
  then have "\<lfloor>v * 255\<rfloor> \<le> 255" by (simp add: floor_le_iff)
  then show ?thesis unfolding pixel_def v_def [symmetric] astype_uint8_unit [OF v] by linarith
qed

lemma pixel_mono:
  assumes "lo \<le> hi" and "a \<le> b"
  shows "pixel lo hi a \<le> pixel lo hi b"
proof -
  have d: "0 < hi - lo + eps" using assms(1) by (simp add: eps_def add_pos_nonneg)
  have "(a - lo) / (hi - lo + eps) \<le> (b - lo) / (hi - lo + eps)"
    using assms(2) d by (simp add: divide_right_mono)
  then have "clip ((a - lo) / (hi - lo + eps)) 0 1 * 255 \<le> clip ((b - lo) / (hi - lo + eps)) 0 1 * 255"
    using clip_mono by simp
  then have "\<lfloor>clip ((a - lo) / (hi - lo + eps)) 0 1 * 255\<rfloor>
      \<le> \<lfloor>clip ((b - lo) / (hi - lo + eps)) 0 1 * 255\<rfloor>"
    by (rule floor_mono)
  then show ?thesis
    using clip_unit by (simp add: pixel_def astype_uint8_unit nat_mono)
qed

lemma normalize_data:
  assumes "normalize px = Inr img"
    and "percentile (data px) 1 = Inr lo" and "percentile (data px) 99 = Inr hi"
  shows "data img = map (pixel lo hi) (data px)"
  using assms by (auto simp: normalize_def map_ndarray_def Let_def pixel_def)

lemma interp_replicate:
  assumes "0 < n"
  shows "interp (replicate n c) v = c"
proof -
  have "\<And>i. clamped_at (replicate n c) i = c"
    using assms by (simp add: clamped_at_def min_def)
  then show ?thesis by (simp add: interp_def)
qed

lemma percentile_constant:
  assumes ne: "xs \<noteq> []" and const: "\<forall>s\<in>set xs. s = c" and q0: "0 \<le> q"
  shows "percentile xs q = Inr c"
proof -
  have xs: "xs = replicate (length xs) c"
    using const by (simp add: replicate_length_same)
  have "sorted (replicate (length xs) c)" by (simp add: sorted_replicate)
  then have "sort (replicate (length xs) c) = replicate (length xs) c"
    by (rule sort_key_id_if_sorted [of "\<lambda>x. x", simplified])
  then have srt: "sort xs = replicate (length xs) c" using xs by simp
  have n: "0 < length xs" using ne by simp
  have "0 \<le> q / 100" using q0 by simp
  then show ?thesis
    using quantile_interp [OF ne, of "q / 100"]
    by (simp only: percentile_def srt interp_replicate [OF n])
qed

lemma pixel_at_low: "pixel lo hi lo = 0"
  by (simp add: pixel_def clip_def astype_uint8_def trunc_def)

text \<open>
  C3. On a source grid whose samples all have the same value \<open>c\<close>, both percentiles
  are \<open>c\<close>, the divisor \<open>hi - lo + \<epsilon>\<close> is not zero, and the normalizer returns an
  image of the same shape that is 0 everywhere.
\<close>

theorem constant_grid_normalizes_to_zero:
  assumes ne: "data px \<noteq> []" and const: "\<forall>s\<in>set (data px). s = c"
  shows "percentile (data px) 1 = Inr c \<and> percentile (data px) 99 = Inr c
       \<and> c - c + eps \<noteq> 0
       \<and> normalize px = Inr \<lparr>shape = shape px, data = replicate (length (data px)) 0\<rparr>"
proof -
  have lo: "percentile (data px) 1 = Inr c"
    using percentile_constant [OF ne const, of 1] by simp
  have hi: "percentile (data px) 99 = Inr c"
    using percentile_constant [OF ne const, of 99] by simp
  obtain img where img: "normalize px = Inr img"
    using normalize_nonempty [OF ne] by blast
  have "data img = map (pixel c c) (data px)"
    by (rule normalize_data [OF img lo hi])
  also have "\<dots> = map (\<lambda>s. 0) (data px)"
    using const by (intro map_cong) (simp_all add: pixel_at_low)
  also have "\<dots> = replicate (length (data px)) 0"
    by (simp add: map_replicate_const)
  finally have "data img = replicate (length (data px)) 0" .
  moreover have "shape img = shape px" using normalize_shape [OF img] by simp
  ultimately have "img = \<lparr>shape = shape px, data = replicate (length (data px)) 0\<rparr>" by simp
  then show ?thesis using lo hi img by (simp add: eps_def)
qed

theorem constant_grid_normalizes_to_zero_witness:
  "data \<lparr>shape = [2, 2], data = [7, 7, 7, 7 :: rat]\<rparr> \<noteq> []
   \<and> percentile [7, 7, 7, 7] 1 = Inr 7 \<and> percentile [7, 7, 7, 7] 99 = Inr 7
   \<and> (7 :: rat) - 7 + eps \<noteq> 0
   \<and> normalize \<lparr>shape = [2, 2], data = [7, 7, 7, 7]\<rparr> = Inr \<lparr>shape = [2, 2], data = [0, 0, 0, 0]\<rparr>"
  using constant_grid_normalizes_to_zero [of "\<lparr>shape = [2, 2], data = [7, 7, 7, 7]\<rparr>" 7]
  by (simp add: eval_nat_numeral)

text \<open>
  C4. If sample \<open>a\<close> (at index \<open>i\<close>) is strictly greater than sample \<open>b\<close> (at index
  \<open>j\<close>) and both lie inside the percentile window, then the normalized value of \<open>a\<close>
  is at least that of \<open>b\<close>. A grid with two such samples has two distinct values.
\<close>

theorem normalize_monotone:
  assumes img: "normalize px = Inr img"
    and lo: "percentile (data px) 1 = Inr lo" and hi: "percentile (data px) 99 = Inr hi"
    and i: "i < length (data px)" and j: "j < length (data px)"
    and gt: "data px ! j < data px ! i"
    and a_in: "lo \<le> data px ! i" "data px ! i \<le> hi"
    and b_in: "lo \<le> data px ! j" "data px ! j \<le> hi"
  shows "data img ! j \<le> data img ! i"
proof -
  have "data img = map (pixel lo hi) (data px)"
    by (rule normalize_data [OF img lo hi])
  then have "data img ! i = pixel lo hi (data px ! i)" and "data img ! j = pixel lo hi (data px ! j)"
    using i j by simp_all
  moreover have "pixel lo hi (data px ! j) \<le> pixel lo hi (data px ! i)"
    using window_ordered [OF lo hi] gt by (intro pixel_mono) simp_all
  ultimately show ?thesis by simp
qed

theorem normalize_monotone_witness:
  "normalize \<lparr>shape = [2, 2], data = [0, 10, 20, 30]\<rparr> = Inr \<lparr>shape = [2, 2], data = [0, 84, 170, 255]\<rparr>
   \<and> percentile [0, 10, 20, 30] 1 = Inr (3 / 10) \<and> percentile [0, 10, 20, 30] 99 = Inr (297 / 10)
   \<and> [0, 10, 20, 30 :: rat] ! 1 < [0, 10, 20, 30] ! 2
   \<and> (3 / 10 :: rat) \<le> [0, 10, 20, 30] ! 1 \<and> [0, 10, 20, 30] ! 2 \<le> (297 / 10 :: rat)
   \<and> [0, 84, 170, 255 :: nat] ! 1 \<le> [0, 84, 170, 255] ! 2"
proof -
  have img: "normalize \<lparr>shape = [2, 2], data = [0, 10, 20, 30]\<rparr> = Inr \<lparr>shape = [2, 2], data = [0, 84, 170, 255]\<rparr>"
    by code_simp
  have lo: "percentile (data \<lparr>shape = [2, 2], data = [0, 10, 20, 30]\<rparr>) 1 = Inr (3 / 10)"
    by code_simp
  have hi: "percentile (data \<lparr>shape = [2, 2], data = [0, 10, 20, 30]\<rparr>) 99 = Inr (297 / 10)"
    by code_simp
  have "data \<lparr>shape = [2, 2], data = [0, 84, 170, 255 :: nat]\<rparr> ! 1 \<le> data \<lparr>shape = [2, 2], data = [0, 84, 170, 255 :: nat]\<rparr> ! 2"
    by (rule normalize_monotone [OF img lo hi]) simp_all
  then show ?thesis using img lo hi by simp
qed



section \<open>Properties of the output name\<close>

text \<open>
  For a name that passes the filter, holds no separator and is not dots only before its
  last four characters, \<^verbatim>\<open>splitext\<close> cuts exactly the \<^verbatim>\<open>.dcm\<close> ending, so the output
  name is the name with that ending replaced by \<^verbatim>\<open>.png\<close>. A name that is dots only
  before the ending has no extension for \<^verbatim>\<open>splitext\<close>, and \<^verbatim>\<open>.png\<close> is appended
  to the whole name.
\<close>

lemma rfind_from_absent: "c \<notin> set xs \<Longrightarrow> rfind_from c xs i found = found"
  by (induction xs arbitrary: i found) auto

lemma rfind_from_append:
  "rfind_from c (xs @ ys) i found = rfind_from c ys (i + int (length xs)) (rfind_from c xs i found)"
  by (induction xs arbitrary: i found) (auto simp: algebra_simps)

lemma rfind_last_dot:
  assumes "CHR ''.'' \<notin> set ext"
  shows "rfind (stem @ CHR ''.'' # ext) CHR ''.'' = int (length stem)"
  using assms by (simp add: rfind_def rfind_from_append rfind_from_absent)

lemma rfind_no_sep: "CHR ''/'' \<notin> set p \<Longrightarrow> rfind p CHR ''/'' = - 1"
  by (simp add: rfind_def rfind_from_absent)

lemma skip_leading_dots_found:
  assumes "i \<le> k" and "k < n" and "p ! k \<noteq> CHR ''.''"
  shows "skip_leading_dots p i n = Some (take n p, drop n p)"
  using assms
proof (induction p i n rule: skip_leading_dots.induct)
  case (1 p i n)
  show ?case
  proof (cases "p ! i \<noteq> CHR ''.''")
    case True
    then show ?thesis using "1.prems" by (simp add: skip_leading_dots.simps [of p i n])
  next
    case False
    then have "i \<noteq> k" using "1.prems"(3) by auto
    then have "i + 1 \<le> k" using "1.prems"(1) by simp
    moreover have "i < n" using "1.prems" by simp
    ultimately have "skip_leading_dots p (i + 1) n = Some (take n p, drop n p)"
      using "1.IH" False "1.prems" by simp
    then show ?thesis using False \<open>i < n\<close> by (simp add: skip_leading_dots.simps [of p i n])
  qed
qed

lemma splitext_plain:
  assumes sep: "CHR ''/'' \<notin> set stem" "CHR ''/'' \<notin> set ext"
    and dot: "CHR ''.'' \<notin> set ext"
    and named: "\<exists>c\<in>set stem. c \<noteq> CHR ''.''"
  shows "splitext (stem @ CHR ''.'' # ext) = (stem, CHR ''.'' # ext)"
proof -
  let ?p = "stem @ CHR ''.'' # ext"
  have s: "rfind ?p CHR ''/'' = - 1" using sep by (intro rfind_no_sep) simp
  have d: "rfind ?p CHR ''.'' = int (length stem)" by (rule rfind_last_dot [OF dot])
  obtain k where k: "k < length stem" "stem ! k \<noteq> CHR ''.''"
    using named by (auto simp: in_set_conv_nth)
  then have "?p ! k \<noteq> CHR ''.''" by (simp add: nth_append)
  then have "skip_leading_dots ?p 0 (length stem) = Some (take (length stem) ?p, drop (length stem) ?p)"
    using k(1) by (intro skip_leading_dots_found [of 0 k]) simp_all
  then show ?thesis by (simp add: splitext_def s d)
qed

lemma lower_char_dot:
  assumes "lower_char c = CHR ''.''"
  shows "c = CHR ''.''"
proof (rule ccontr)
  assume other: "c \<noteq> CHR ''.''"
  then have up: "65 \<le> (of_char c :: nat)" "(of_char c :: nat) \<le> 90"
    and eq: "char_of (of_char c + 32 :: nat) = CHR ''.''"
    using assms by (auto simp: lower_char_def Let_def split: if_splits)
  have "(of_char (char_of (of_char c + 32 :: nat)) :: nat) = (of_char c + 32) mod 256"
    by (rule of_char_of)
  then have "(of_char CHR ''.'' :: nat) = of_char c + 32" using up eq by simp
  then show False using up by simp
qed

lemma lower_char_letter:
  assumes "lower_char c = l" and "l \<in> {CHR ''d'', CHR ''c'', CHR ''m''}"
  shows "c \<noteq> CHR ''.'' \<and> c \<noteq> CHR ''/''"
proof -
  have "lower_char CHR ''.'' = CHR ''.''" and "lower_char CHR ''/'' = CHR ''/''"
    by (simp_all add: lower_char_def)
  then show ?thesis using assms by auto
qed

lemma out_name_dcm:
  assumes dcm: "is_dcm fn" and sep: "CHR ''/'' \<notin> set fn"
    and named: "\<exists>c\<in>set (take (length fn - 4) fn). c \<noteq> CHR ''.''"
  shows "out_name fn = take (length fn - 4) fn @ ''.png''"
proof -
  define stem where "stem = take (length fn - 4) fn"
  define suf where "suf = drop (length fn - 4) fn"
  have fn: "fn = stem @ suf" by (simp add: stem_def suf_def)
  have l4: "length ''.dcm'' = (4::nat)" by simp
  have len: "4 \<le> length fn" and low: "map lower_char suf = ''.dcm''"
    using dcm unfolding is_dcm_def endswith_def l4 lower_def
    by (simp_all add: suf_def drop_map)
  have "length suf = 4" using len by (simp add: suf_def)
  then obtain c0 c1 c2 c3 where suf: "suf = [c0, c1, c2, c3]"
    by (auto simp: length_Suc_conv eval_nat_numeral)
  have c0: "c0 = CHR ''.''" using low lower_char_dot by (simp add: suf)
  have c1: "c1 \<noteq> CHR ''.'' \<and> c1 \<noteq> CHR ''/''"
    using low by (intro lower_char_letter [of c1 "CHR ''d''"]) (simp_all add: suf)
  have c2: "c2 \<noteq> CHR ''.'' \<and> c2 \<noteq> CHR ''/''"
    using low by (intro lower_char_letter [of c2 "CHR ''c''"]) (simp_all add: suf)
  have c3: "c3 \<noteq> CHR ''.'' \<and> c3 \<noteq> CHR ''/''"
    using low by (intro lower_char_letter [of c3 "CHR ''m''"]) (simp_all add: suf)
  have "CHR ''/'' \<notin> set stem" using sep fn by auto
  moreover have "\<exists>c\<in>set stem. c \<noteq> CHR ''.''" using named by (simp add: stem_def)
  ultimately have "splitext (stem @ CHR ''.'' # [c1, c2, c3]) = (stem, CHR ''.'' # [c1, c2, c3])"
    using c1 c2 c3 by (intro splitext_plain) auto
  then have "splitext fn = (stem, suf)" by (simp add: fn suf c0)
  then show ?thesis by (simp add: out_name_def stem_def)
qed

lemma out_name_without_stem: "is_dcm ''.dcm'' \<and> out_name ''.dcm'' = ''.dcm.png''"
  by code_simp

section \<open>Properties of the batch\<close>

lemma inner_loop_run: "inner_loop e dirpath fs st = run e (map (Pair dirpath) fs) st"
  by (induction fs arbitrary: st) (auto split: sum.splits)

lemma run_append:
  "run e (xs @ ys) st = (case run e xs st of Inl raised \<Rightarrow> Inl raised | Inr st' \<Rightarrow> run e ys st')"
  by (induction xs arbitrary: st) (auto split: sum.splits)

lemma outer_loop_run: "outer_loop e ws st = run e (entries ws) st"
proof (induction ws arbitrary: st)
  case Nil
  show ?case by (simp add: entries_def)
next
  case (Cons w ws)
  obtain dirpath dirs fs where w: "w = (dirpath, dirs, fs)" by (cases w)
  have "entries (w # ws) = map (Pair dirpath) fs @ entries ws"
    by (simp add: entries_def w)
  then show ?case
    by (simp add: w run_append inner_loop_run Cons.IH split: sum.splits)
qed

lemma convert_file_cases:
  "convert_file e dirpath (fn, f) st =
     (if \<not> is_dcm fn then Inr st
      else case converted f of
             Inl err \<Rightarrow> Inl (err, st)
           | Inr img \<Rightarrow>
               if save_ok e (out_path e fn) img then
                 Inr (st\<lparr>files := (files st)(out_path e fn \<mapsto> img),
                         writes := writes st @ [(out_path e fn, img)],
                         count := count st + 1\<rparr>)
               else Inl (SaveError, st))"
  by (simp add: convert_file_def converted_def out_path_def Let_def split: sum.splits)

lemma convert_file_skip: "\<not> is_dcm fn \<Longrightarrow> convert_file e dirpath (fn, f) st = Inr st"
  by (simp add: convert_file_cases)

lemma convert_file_raised: "convert_file e dirpath entry st = Inl (err, st') \<Longrightarrow> st' = st"
  by (cases entry) (auto simp: convert_file_cases split: if_splits sum.splits)

lemma convert_file_done:
  assumes "convert_file e dirpath (fn, f) st = Inr st'" and "is_dcm fn"
  shows "\<exists>img. converted f = Inr img \<and> save_ok e (out_path e fn) img
           \<and> st' = st\<lparr>files := (files st)(out_path e fn \<mapsto> img),
                       writes := writes st @ [(out_path e fn, img)],
                       count := count st + 1\<rparr>"
  using assms by (auto simp: convert_file_cases split: if_splits sum.splits)

lemma convert_file_counter:
  assumes "count st = length (writes st)"
  shows "count (state_of (convert_file e dirpath entry st)) = length (writes (state_of (convert_file e dirpath entry st)))"
  using assms by (cases entry) (auto simp: convert_file_cases state_of_def split: sum.splits)

lemma convert_file_stdout:
  "stdout (state_of (convert_file e dirpath entry st)) = stdout st"
  by (cases entry) (auto simp: convert_file_cases state_of_def split: sum.splits)

lemma run_counter:
  "count st = length (writes st) \<Longrightarrow>
   count (state_of (run e es st)) = length (writes (state_of (run e es st)))"
proof (induction es arbitrary: st)
  case Nil
  then show ?case by (simp add: state_of_def)
next
  case (Cons x es)
  obtain dirpath entry where x: "x = (dirpath, entry)" by (cases x)
  show ?case
  proof (cases "convert_file e dirpath entry st")
    case (Inl raised)
    then show ?thesis
      using convert_file_counter [OF Cons.prems, of e dirpath entry] by (simp add: x)
  next
    case (Inr st')
    then have "count st' = length (writes st')"
      using convert_file_counter [OF Cons.prems, of e dirpath entry] by (simp add: state_of_def)
    then show ?thesis using Cons.IH Inr by (simp add: x)
  qed
qed

lemma run_stdout: "stdout (state_of (run e es st)) = stdout st"
proof (induction es arbitrary: st)
  case Nil
  show ?case by (simp add: state_of_def)
next
  case (Cons x es)
  obtain dirpath entry where x: "x = (dirpath, entry)" by (cases x)
  show ?case
  proof (cases "convert_file e dirpath entry st")
    case (Inl raised)
    then show ?thesis using convert_file_stdout [of e dirpath entry st] by (simp add: x)
  next
    case (Inr st')
    then have "stdout st' = stdout st"
      using convert_file_stdout [of e dirpath entry st] by (simp add: state_of_def)
    then show ?thesis using Cons.IH [of st'] Inr by (simp add: x)
  qed
qed

lemma run_Cons_Inr:
  "run e ((dirpath, entry) # rest) st = Inr st' \<longleftrightarrow>
     (\<exists>sm. convert_file e dirpath entry st = Inr sm \<and> run e rest sm = Inr st')"
  by (auto split: sum.splits)

lemma run_append_Inr:
  "run e (xs @ ys) st = Inr st' \<longleftrightarrow> (\<exists>sm. run e xs st = Inr sm \<and> run e ys sm = Inr st')"
  by (auto simp: run_append split: sum.splits)

lemma main_Inr:
  assumes "main e = Inr st"
  shows "makedirs_ok e \<and>
    (\<exists>s. run e (entries (os_walk (src e) (src_node e))) (init e) = Inr s
       \<and> st = s\<lparr>stdout := stdout s @ [summary (count s) (dst e)]\<rparr>)"
  using assms by (auto simp: main_def outer_loop_run split: if_splits sum.splits)

lemma run_Inr_stdout: "run e es st = Inr st' \<Longrightarrow> stdout st' = stdout st"
  using run_stdout [of e es st] by (simp add: state_of_def)

lemma run_Inr_counter:
  "run e es st = Inr st' \<Longrightarrow> count st = length (writes st) \<Longrightarrow> count st' = length (writes st')"
  using run_counter [of st e es] by (simp add: state_of_def)

lemma main_summary:
  assumes "main e = Inr st"
  shows "stdout st = [summary (count st) (dst e)] \<and> count st = length (writes st)"
proof -
  obtain s where s: "run e (entries (os_walk (src e) (src_node e))) (init e) = Inr s"
    and st: "st = s\<lparr>stdout := stdout s @ [summary (count s) (dst e)]\<rparr>"
    using main_Inr [OF assms] by blast
  have "stdout s = []" using run_Inr_stdout [OF s] by (simp add: init_def)
  moreover have "count s = length (writes s)"
    using run_Inr_counter [OF s] by (simp add: init_def)
  ultimately show ?thesis by (simp add: st)
qed

text \<open>
  C8, as the code has it. A run that completes has printed exactly one line,
  \<^verbatim>\<open>Converted <N> DICOMs to PNG in: <output_root>\<close>, where \<open>N\<close> is the counter, which
  equals the number of images written. The wording of the specification,
  \<^verbatim>\<open>Converted <N> files to: <output_root>\<close>, is not what is printed: see the run on
  \<open>same_name_twice\<close> below.
\<close>

theorem summary_line:
  assumes "main e = Inr st"
  shows "stdout st = [''Converted '' @ str (count st) @ '' DICOMs to PNG in: '' @ dst e]
       \<and> count st = length (writes st)"
  using main_summary [OF assms] by (simp add: summary_def)

theorem summary_line_counterexample:
  "\<not> isl (main same_name_twice)
   \<and> count (state_of (main same_name_twice)) = 2
   \<and> stdout (state_of (main same_name_twice)) = [''Converted 2 DICOMs to PNG in: out'']
   \<and> spec_summary 2 ''out'' = ''Converted 2 files to: out''
   \<and> stdout (state_of (main same_name_twice)) \<noteq> [spec_summary 2 (dst same_name_twice)]"
  by code_simp

theorem summary_line_witness:
  "main same_name_twice = Inr (projr (main same_name_twice))
   \<and> stdout (projr (main same_name_twice)) = [''Converted 2 DICOMs to PNG in: out'']
   \<and> count (projr (main same_name_twice)) = length (writes (projr (main same_name_twice)))"
proof -
  have "\<not> isl (main same_name_twice)" by code_simp
  then have r: "main same_name_twice = Inr (projr (main same_name_twice))" by simp
  have c: "count (projr (main same_name_twice)) = 2" by code_simp
  have s: "str 2 = ''2''" by code_simp
  have d: "dst same_name_twice = ''out''" by code_simp
  show ?thesis using summary_line [OF r] r c s d by simp
qed

text \<open>
  C6, as the code has it. When the input root is missing or cannot be listed and the
  output root can be created, \<^verbatim>\<open>os.walk\<close> yields nothing and the run completes
  normally: nothing is written and the summary line reports 0 conversions. The run on
  \<open>missing_root\<close> below is not aborted.
\<close>

theorem unlistable_root_completes:
  assumes "src_node e = None \<or> src_node e = Some Locked" and "makedirs_ok e"
  shows "main e = Inr ((init e)\<lparr>stdout := [summary 0 (dst e)]\<rparr>)"
  using assms by (auto simp: main_def init_def)

theorem unlistable_root_counterexample:
  "src_node missing_root = None
   \<and> \<not> isl (main missing_root)
   \<and> writes (state_of (main missing_root)) = []
   \<and> stdout (state_of (main missing_root)) = [''Converted 0 DICOMs to PNG in: out'']"
  by code_simp

theorem unlistable_root_completes_witness:
  "src_node missing_root = None \<and> makedirs_ok missing_root
   \<and> main missing_root = Inr ((init missing_root)\<lparr>stdout := [''Converted 0 DICOMs to PNG in: out'']\<rparr>)"
proof -
  have a: "src_node missing_root = None" and b: "makedirs_ok missing_root"
    by (simp_all add: missing_root_def)
  have s: "summary 0 (dst missing_root) = ''Converted 0 DICOMs to PNG in: out''" by code_simp
  show ?thesis using unlistable_root_completes [of missing_root] a b s by simp
qed

text \<open>
  C5, as the code has it. A file that does not decode aborts the batch at that file: the
  exception leaves both loops with the state reached by the files before it, no file
  after it is processed and no summary line is printed. There is no count of skipped
  files. The run on \<open>one_corrupt\<close> below stops at the second of three files.
\<close>

theorem decode_error_aborts:
  assumes mk: "makedirs_ok e"
    and es: "entries (os_walk (src e) (src_node e)) = pre @ [(dirpath, fn, Corrupt)] @ post"
    and dcm: "is_dcm fn"
    and pre: "run e pre (init e) = Inr st"
  shows "main e = Inl (InvalidDicomError, st) \<and> stdout st = [] \<and> count st = length (writes st)"
proof -
  have "convert_file e dirpath (fn, Corrupt) st = Inl (InvalidDicomError, st)"
    using dcm by (simp add: convert_file_cases converted_def dcmread_def)
  then have "run e (entries (os_walk (src e) (src_node e))) (init e) = Inl (InvalidDicomError, st)"
    by (simp add: es run_append pre)
  then have "main e = Inl (InvalidDicomError, st)"
    using mk by (simp add: main_def outer_loop_run)
  moreover have "stdout st = []" using run_Inr_stdout [OF pre] by (simp add: init_def)
  moreover have "count st = length (writes st)"
    using run_Inr_counter [OF pre] by (simp add: init_def)
  ultimately show ?thesis by simp
qed

theorem decode_error_counterexample:
  "isl (main one_corrupt)
   \<and> fst (projl (main one_corrupt)) = InvalidDicomError
   \<and> writes (state_of (main one_corrupt)) = [(''out/a.png'', \<lparr>shape = [2, 2], data = [0, 84, 170, 255]\<rparr>)]
   \<and> count (state_of (main one_corrupt)) = 1
   \<and> files (state_of (main one_corrupt)) ''out/c.png'' = None
   \<and> stdout (state_of (main one_corrupt)) = []"
  by code_simp

theorem decode_error_aborts_witness:
  "makedirs_ok one_corrupt
   \<and> entries (os_walk (src one_corrupt) (src_node one_corrupt))
       = [(''in'', ''a.dcm'', Dicom ramp)] @ [(''in'', ''b.dcm'', Corrupt)] @ [(''in'', ''c.dcm'', Dicom flat)]
   \<and> is_dcm ''b.dcm''
   \<and> main one_corrupt
       = Inl (InvalidDicomError, projr (run one_corrupt [(''in'', ''a.dcm'', Dicom ramp)] (init one_corrupt)))
   \<and> count (projr (run one_corrupt [(''in'', ''a.dcm'', Dicom ramp)] (init one_corrupt))) = 1"
proof -
  have mk: "makedirs_ok one_corrupt" by code_simp
  have es: "entries (os_walk (src one_corrupt) (src_node one_corrupt))
       = [(''in'', ''a.dcm'', Dicom ramp)] @ [(''in'', ''b.dcm'', Corrupt)] @ [(''in'', ''c.dcm'', Dicom flat)]"
    by code_simp
  have dcm: "is_dcm ''b.dcm''" by code_simp
  have "\<not> isl (run one_corrupt [(''in'', ''a.dcm'', Dicom ramp)] (init one_corrupt))" by code_simp
  then have pre: "run one_corrupt [(''in'', ''a.dcm'', Dicom ramp)] (init one_corrupt)
      = Inr (projr (run one_corrupt [(''in'', ''a.dcm'', Dicom ramp)] (init one_corrupt)))"
    by simp
  have c: "count (projr (run one_corrupt [(''in'', ''a.dcm'', Dicom ramp)] (init one_corrupt))) = 1"
    by code_simp
  show ?thesis using decode_error_aborts [OF mk es dcm pre] mk es dcm c by simp
qed

lemma run_writes_extend: "run e es st = Inr st' \<Longrightarrow> \<exists>ws. writes st' = writes st @ ws"
proof (induction es arbitrary: st)
  case Nil
  then show ?case by simp
next
  case (Cons x es)
  obtain dirpath fn f where x: "x = (dirpath, fn, f)" by (cases x)
  obtain sm where sm: "convert_file e dirpath (fn, f) st = Inr sm" and rest: "run e es sm = Inr st'"
    using Cons.prems by (auto simp: x run_Cons_Inr simp del: run.simps)
  have "\<exists>ws. writes sm = writes st @ ws"
  proof (cases "is_dcm fn")
    case True
    then show ?thesis using convert_file_done [OF sm] by auto
  next
    case False
    then show ?thesis using sm by (simp add: convert_file_skip)
  qed
  then show ?case using Cons.IH [OF rest] by auto
qed

lemma run_files_untouched:
  assumes "run e es st = Inr st'"
    and "\<forall>(d, n, f)\<in>set es. is_dcm n \<longrightarrow> out_path e n \<noteq> p"
  shows "files st' p = files st p"
  using assms
proof (induction es arbitrary: st)
  case Nil
  then show ?case by simp
next
  case (Cons x es)
  obtain dirpath fn f where x: "x = (dirpath, fn, f)" by (cases x)
  obtain sm where sm: "convert_file e dirpath (fn, f) st = Inr sm" and rest: "run e es sm = Inr st'"
    using Cons.prems(1) by (auto simp: x run_Cons_Inr simp del: run.simps)
  have "files sm p = files st p"
  proof (cases "is_dcm fn")
    case True
    then have "out_path e fn \<noteq> p" using Cons.prems(2) by (simp add: x)
    then show ?thesis using convert_file_done [OF sm True] by auto
  next
    case False
    then show ?thesis using sm by (simp add: convert_file_skip)
  qed
  moreover have "files st' p = files sm p"
    using Cons.prems(2) by (intro Cons.IH [OF rest]) simp
  ultimately show ?case by simp
qed

text \<open>
  C7. Let a run complete on a batch in which the same file name \<open>fn\<close> occurs in two
  different directories, first with file \<open>f1\<close> and later with file \<open>f2\<close>, and let no
  later file be written to the same output path. Then both files were converted and saved
  to the one path \<open>join dst (root of fn + ".png")\<close>, first the image of \<open>f1\<close> and then
  the image of \<open>f2\<close>, and the file at that path holds the image of \<open>f2\<close>: the second
  write replaced the first without an error. For an ordinary name the path ends in the
  name with \<^verbatim>\<open>.dcm\<close> replaced by \<^verbatim>\<open>.png\<close> (\<open>out_name_dcm\<close>).
\<close>

theorem same_name_overwrites:
  assumes fin: "main e = Inr st"
    and es: "entries (os_walk (src e) (src_node e))
               = pre @ [(dir1, fn, f1)] @ mid @ [(dir2, fn, f2)] @ post"
    and dirs: "dir1 \<noteq> dir2"
    and dcm: "is_dcm fn"
    and final: "\<forall>(d, n, f)\<in>set post. is_dcm n \<longrightarrow> out_path e n \<noteq> out_path e fn"
  shows "\<exists>img1 img2 before between behind.
           converted f1 = Inr img1 \<and> converted f2 = Inr img2
         \<and> writes st = before @ [(out_path e fn, img1)] @ between @ [(out_path e fn, img2)] @ behind
         \<and> files st (out_path e fn) = Some img2
         \<and> out_path e fn = join (dst e) (fst (splitext fn) @ ''.png'')"
proof -
  obtain s where s: "run e (pre @ [(dir1, fn, f1)] @ mid @ [(dir2, fn, f2)] @ post) (init e) = Inr s"
    and st: "st = s\<lparr>stdout := stdout s @ [summary (count s) (dst e)]\<rparr>"
    using main_Inr [OF fin] es by auto
  obtain sa sb sc sd where
    a: "run e pre (init e) = Inr sa"
    and b: "convert_file e dir1 (fn, f1) sa = Inr sb"
    and c: "run e mid sb = Inr sc"
    and d: "convert_file e dir2 (fn, f2) sc = Inr sd"
    and p: "run e post sd = Inr s"
    using s by (auto simp: run_append_Inr run_Cons_Inr simp del: run.simps)
  obtain img1 where img1: "converted f1 = Inr img1"
    and sb: "writes sb = writes sa @ [(out_path e fn, img1)]"
    using convert_file_done [OF b dcm] by auto
  obtain img2 where img2: "converted f2 = Inr img2"
    and sd: "writes sd = writes sc @ [(out_path e fn, img2)]"
    and fd: "files sd (out_path e fn) = Some img2"
    using convert_file_done [OF d dcm] by auto
  obtain wm where wm: "writes sc = writes sb @ wm" using run_writes_extend [OF c] by blast
  obtain wp where wp: "writes s = writes sd @ wp" using run_writes_extend [OF p] by blast
  have "writes st = writes sa @ [(out_path e fn, img1)] @ wm @ [(out_path e fn, img2)] @ wp"
    by (simp add: st wp sd wm sb)
  moreover have "files st (out_path e fn) = Some img2"
    using run_files_untouched [OF p final] fd by (simp add: st)
  ultimately show ?thesis
    using img1 img2 by (auto simp: out_path_def out_name_def)
qed

theorem same_name_overwrites_witness:
  "main same_name_twice = Inr (projr (main same_name_twice))
   \<and> entries (os_walk (src same_name_twice) (src_node same_name_twice))
       = [] @ [(''in'', ''a.dcm'', Dicom ramp)] @ [(''in'', ''notes.txt'', Corrupt)]
            @ [(''in/sub'', ''a.dcm'', Dicom flat)] @ []
   \<and> ''in'' \<noteq> ''in/sub'' \<and> is_dcm ''a.dcm''
   \<and> writes (projr (main same_name_twice))
       = [(''out/a.png'', \<lparr>shape = [2, 2], data = [0, 84, 170, 255]\<rparr>),
          (''out/a.png'', \<lparr>shape = [2, 2], data = [0, 0, 0, 0]\<rparr>)]
   \<and> files (projr (main same_name_twice)) ''out/a.png'' = Some \<lparr>shape = [2, 2], data = [0, 0, 0, 0]\<rparr>
   \<and> out_path same_name_twice ''a.dcm'' = ''out/a.png''"
proof -
  have "\<not> isl (main same_name_twice)" by code_simp
  then have r: "main same_name_twice = Inr (projr (main same_name_twice))" by simp
  have es: "entries (os_walk (src same_name_twice) (src_node same_name_twice))
       = [] @ [(''in'', ''a.dcm'', Dicom ramp)] @ [(''in'', ''notes.txt'', Corrupt)]
            @ [(''in/sub'', ''a.dcm'', Dicom flat)] @ []"
    by code_simp
  have dirs: "''in'' \<noteq> ''in/sub''" by simp
  have dcm: "is_dcm ''a.dcm''" by code_simp
  have final: "\<forall>(d, n, f)\<in>set []. is_dcm n \<longrightarrow> out_path same_name_twice n \<noteq> out_path same_name_twice ''a.dcm''"
    by simp
  have c1: "converted (Dicom ramp) = Inr \<lparr>shape = [2, 2], data = [0, 84, 170, 255]\<rparr>" by code_simp
  have c2: "converted (Dicom flat) = Inr \<lparr>shape = [2, 2], data = [0, 0, 0, 0]\<rparr>" by code_simp
  have w: "writes (projr (main same_name_twice))
       = [(''out/a.png'', \<lparr>shape = [2, 2], data = [0, 84, 170, 255]\<rparr>),
          (''out/a.png'', \<lparr>shape = [2, 2], data = [0, 0, 0, 0]\<rparr>)]" by code_simp
  have p: "out_path same_name_twice ''a.dcm'' = ''out/a.png''" by code_simp
  show ?thesis
    using same_name_overwrites [OF r es dirs dcm final] r es dcm w p c2 by auto
qed

lemma after_counter: "count (after e k) = length (writes (after e k))"
  unfolding after_def by (rule run_counter) (simp add: init_def)

text \<open>
  C10. The counter starts at 0 with nothing written. After any number \<open>k\<close> of passes
  through the loop body, whether the run is still going or has raised, the counter equals
  the number of completed \<^verbatim>\<open>save\<close> calls. A pass over a name that does not end in
  \<^verbatim>\<open>.dcm\<close> changes nothing; a pass that completes on a matching name adds exactly one
  write and exactly one to the counter; a pass that raises changes neither. The count in
  the summary line of a completed run is the number of writes performed.
\<close>

theorem counter_counts_writes:
  "count (init e) = 0 \<and> writes (init e) = []
   \<and> count (after e k) = length (writes (after e k))
   \<and> (\<not> is_dcm fn \<longrightarrow> convert_file e dirpath (fn, f) st = Inr st)
   \<and> (\<forall>st'. is_dcm fn \<and> convert_file e dirpath (fn, f) st = Inr st' \<longrightarrow>
         count st' = count st + 1 \<and> length (writes st') = length (writes st) + 1)
   \<and> (\<forall>err st'. convert_file e dirpath (fn, f) st = Inl (err, st') \<longrightarrow>
         count st' = count st \<and> writes st' = writes st)
   \<and> (\<forall>final. main e = Inr final \<longrightarrow>
         stdout final = [summary (length (writes final)) (dst e)])"
proof -
  have "\<And>st'. is_dcm fn \<Longrightarrow> convert_file e dirpath (fn, f) st = Inr st' \<Longrightarrow>
      count st' = count st + 1 \<and> length (writes st') = length (writes st) + 1"
  proof -
    fix st'
    assume d: "is_dcm fn" and c: "convert_file e dirpath (fn, f) st = Inr st'"
    show "count st' = count st + 1 \<and> length (writes st') = length (writes st) + 1"
      using convert_file_done [OF c d] by auto
  qed
  moreover have "\<And>err st'. convert_file e dirpath (fn, f) st = Inl (err, st') \<Longrightarrow>
      count st' = count st \<and> writes st' = writes st"
    using convert_file_raised by blast
  moreover have "\<And>final. main e = Inr final \<Longrightarrow>
      stdout final = [summary (length (writes final)) (dst e)]"
    using main_summary by simp
  ultimately show ?thesis
    by (simp add: init_def after_counter convert_file_skip)
qed

theorem counter_counts_writes_witness:
  "count (after same_name_twice 2) = length (writes (after same_name_twice 2))
   \<and> count (after same_name_twice 2) = 1
   \<and> count (after same_name_twice 3) = 2
   \<and> \<not> is_dcm ''notes.txt''
   \<and> convert_file same_name_twice ''in'' (''notes.txt'', Corrupt) (after same_name_twice 1)
       = Inr (after same_name_twice 1)
   \<and> main same_name_twice = Inr (projr (main same_name_twice))
   \<and> length (writes (projr (main same_name_twice))) = 2
   \<and> stdout (projr (main same_name_twice)) = [''Converted 2 DICOMs to PNG in: out'']"
proof -
  have "\<not> isl (main same_name_twice)" by code_simp
  then have r: "main same_name_twice = Inr (projr (main same_name_twice))" by simp
  have n: "\<not> is_dcm ''notes.txt''" by code_simp
  have c2: "count (after same_name_twice 2) = 1" by code_simp
  have c3: "count (after same_name_twice 3) = 2" by code_simp
  have l: "length (writes (projr (main same_name_twice))) = 2" by code_simp
  have s: "summary 2 (dst same_name_twice) = ''Converted 2 DICOMs to PNG in: out''" by code_simp
  show ?thesis
    using counter_counts_writes [of same_name_twice 2 "''notes.txt''" "''in''" Corrupt "after same_name_twice 1"]
      r n c2 c3 l s
    by auto
qed

text \<open>
  C9, as the code has it. The decoded array is handed to the normalizer whole: the
  conversion to floats keeps the number of dimensions, the shape and the number of
  samples, so every frame is passed on, and the image that is written has the shape and
  the number of samples of the decoded array. No frame is selected: the run on
  \<open>multiframe_run\<close> below normalizes and writes a 3-D array.
\<close>

theorem whole_array_is_normalized:
  assumes "convert_file e dirpath (fn, Dicom a) st = Inr st'" and "is_dcm fn"
  shows "\<exists>img. normalize (astype_float32 a) = Inr img
           \<and> ndim (astype_float32 a) = ndim a
           \<and> shape (astype_float32 a) = shape a
           \<and> length (data (astype_float32 a)) = length (data a)
           \<and> shape img = shape a
           \<and> length (data img) = length (data a)
           \<and> writes st' = writes st @ [(out_path e fn, img)]"
proof -
  obtain img where c: "converted (Dicom a) = Inr img"
    and w: "writes st' = writes st @ [(out_path e fn, img)]"
    using convert_file_done [OF assms] by auto
  have n: "normalize (astype_float32 a) = Inr img"
    using c by (simp add: converted_def dcmread_def)
  have "shape img = shape a \<and> length (data img) = length (data a)"
    using normalize_shape [OF n] by (simp add: astype_float32_def map_ndarray_def)
  then show ?thesis
    using n w by (simp add: astype_float32_def map_ndarray_def ndim_def)
qed

theorem first_frame_counterexample:
  "ndim multiframe = 3
   \<and> ndim (astype_float32 multiframe) = 3
   \<and> writes (state_of (main multiframe_run))
       = [(''out/m.png'', \<lparr>shape = [2, 2, 2], data = [0, 34, 71, 108, 146, 183, 220, 255]\<rparr>)]"
  by code_simp

theorem whole_array_is_normalized_witness:
  "is_dcm ''m.dcm''
   \<and> convert_file multiframe_run ''in'' (''m.dcm'', Dicom multiframe) (init multiframe_run)
       = Inr (projr (convert_file multiframe_run ''in'' (''m.dcm'', Dicom multiframe) (init multiframe_run)))
   \<and> normalize (astype_float32 multiframe)
       = Inr \<lparr>shape = [2, 2, 2], data = [0, 34, 71, 108, 146, 183, 220, 255]\<rparr>
   \<and> ndim (astype_float32 multiframe) = 3
   \<and> writes (projr (convert_file multiframe_run ''in'' (''m.dcm'', Dicom multiframe) (init multiframe_run)))
       = [(''out/m.png'', \<lparr>shape = [2, 2, 2], data = [0, 34, 71, 108, 146, 183, 220, 255]\<rparr>)]"
proof -
  have d: "is_dcm ''m.dcm''" by code_simp
  have "\<not> isl (convert_file multiframe_run ''in'' (''m.dcm'', Dicom multiframe) (init multiframe_run))"
    by code_simp
  then have r: "convert_file multiframe_run ''in'' (''m.dcm'', Dicom multiframe) (init multiframe_run)
       = Inr (projr (convert_file multiframe_run ''in'' (''m.dcm'', Dicom multiframe) (init multiframe_run)))"
    by simp
  have n: "normalize (astype_float32 multiframe)
       = Inr \<lparr>shape = [2, 2, 2], data = [0, 34, 71, 108, 146, 183, 220, 255]\<rparr>" by code_simp
  have m: "ndim multiframe = 3" by code_simp
  have p: "out_path multiframe_run ''m.dcm'' = ''out/m.png''" by code_simp
  have i: "writes (init multiframe_run) = []" by (simp add: init_def)
  show ?thesis
    using whole_array_is_normalized [OF r d] d r n m p i by auto
qed

end
